theory Spec2Isabelle
  imports Complex_Main "HOL-Library.Multiset" "HOL-Library.List_Lexorder"
begin

section \<open>Shapley effects: the routine \<open>get_shapley\<close> of \<open>econsa/shapley.py\<close>\<close>

text \<open>
  The module has one function, \<open>get_shapley\<close>, in three stages: it generates the
  permutations of the input indices, builds the design matrix \<open>model_inputs\<close> by nested
  conditional sampling, evaluates the model once, and walks the output vector in the
  order the design was written to accumulate the Shapley effects.

  Python integers are \<open>int\<close>. A loop \<open>for x in range(n)\<close> is a \<open>fold\<close> over
  \<open>py_range n\<close>, so its index is a \<open>nat\<close>. A numpy float is a \<open>real option\<close>:
  \<open>Some x\<close> is the finite value \<open>x\<close> (exact arithmetic, no rounding), \<open>None\<close> is a
  value that is not a real number (\<open>nan\<close>, \<open>inf\<close>, \<open>-inf\<close>), which numpy produces with a
  warning, not an exception, on a zero denominator or a negative radicand, and which every
  later operation of this routine keeps.
\<close>

subsection \<open>Python ranges and slices\<close>

definition py_range :: "int \<Rightarrow> nat list" where
  "py_range n = [0..<nat n]"

text \<open>\<open>xs[:k]\<close> and \<open>xs[k:]\<close>; a negative \<open>k\<close> counts from the end.\<close>

definition slice_bound :: "'a list \<Rightarrow> int \<Rightarrow> nat" where
  "slice_bound xs k = (if k < 0 then nat (int (length xs) + k) else nat k)"

definition slice_to :: "'a list \<Rightarrow> int \<Rightarrow> 'a list" where
  "slice_to xs k = take (slice_bound xs k) xs"

definition slice_from :: "'a list \<Rightarrow> int \<Rightarrow> 'a list" where
  "slice_from xs k = drop (slice_bound xs k) xs"

subsection \<open>Floats\<close>

type_synonym fv = "real option"

definition fadd :: "fv \<Rightarrow> fv \<Rightarrow> fv" where
  "fadd a b = (case a of None \<Rightarrow> None | Some x \<Rightarrow> (case b of None \<Rightarrow> None | Some y \<Rightarrow> Some (x + y)))"

definition fsub :: "fv \<Rightarrow> fv \<Rightarrow> fv" where
  "fsub a b = (case a of None \<Rightarrow> None | Some x \<Rightarrow> (case b of None \<Rightarrow> None | Some y \<Rightarrow> Some (x - y)))"

definition fmul :: "fv \<Rightarrow> fv \<Rightarrow> fv" where
  "fmul a b = (case a of None \<Rightarrow> None | Some x \<Rightarrow> (case b of None \<Rightarrow> None | Some y \<Rightarrow> Some (x * y)))"

text \<open>Division: a zero denominator gives \<open>inf\<close> or \<open>nan\<close>.\<close>

definition fdiv :: "fv \<Rightarrow> fv \<Rightarrow> fv" where
  "fdiv a b = (case a of None \<Rightarrow> None | Some x \<Rightarrow>
     (case b of None \<Rightarrow> None | Some y \<Rightarrow> if y = 0 then None else Some (x / y)))"

text \<open>\<open>np.sqrt\<close>: a negative argument gives \<open>nan\<close>.\<close>

definition fsqrt :: "fv \<Rightarrow> fv" where
  "fsqrt a = (case a of None \<Rightarrow> None | Some x \<Rightarrow> if x < 0 then None else Some (sqrt x))"

definition fsum :: "fv list \<Rightarrow> fv" where
  "fsum xs = foldr fadd xs (Some 0)"

text \<open>
  \<open>np.mean(a)\<close> is the sum over the number of elements; \<open>np.var(a, ddof)\<close> is the sum of
  the squared deviations from the mean over \<open>max(N - ddof, 0)\<close>. The model's outputs are
  taken to be finite, so \<open>np_var\<close> reads a \<open>real list\<close>.
\<close>

definition np_mean :: "fv list \<Rightarrow> fv" where
  "np_mean a = fdiv (fsum a) (Some (real (length a)))"

definition np_var :: "nat \<Rightarrow> real list \<Rightarrow> fv" where
  "np_var ddof a =
     (let arrmean = fdiv (Some (sum_list a)) (Some (real (length a)));
          x = map (\<lambda>v. fsub (Some v) arrmean) a
      in fdiv (fsum (map (\<lambda>d. fmul d d) x)) (Some (real (length a - ddof))))"

subsection \<open>The permutation generator\<close>

text \<open>
  \<open>itertools.permutations(pool, len(pool))\<close>: every ordering of the pool, elements taken by
  position, in lexicographic order of the positions.
\<close>

function permutations_py :: "'a list \<Rightarrow> 'a list list" where
  "permutations_py pool =
     (if pool = [] then [[]]
      else concat (map (\<lambda>i. map ((#) (pool ! i)) (permutations_py (take i pool @ drop (Suc i) pool)))
                       [0..<length pool]))"
  by pat_completeness auto
termination
  by (relation "measure length") auto

text \<open>
  \<open>np.argsort\<close>: the positions of the elements in increasing order of the elements. On a
  permutation the elements are distinct, so the sorting algorithm makes no difference.
\<close>

definition argsort :: "nat list \<Rightarrow> nat list" where
  "argsort a = map snd (sort_key fst (zip a [0..<length a]))"

text \<open>
  The two branches of \<open>get_shapley\<close> that produce \<open>permutations\<close> and \<open>n_perms\<close>.
  \<open>np.random.permutation\<close> reads numpy's global generator: it is the parameter
  \<open>random_permutation\<close>, which takes and returns the generator's state. A negative count
  makes \<open>itertools.permutations\<close> and \<open>np.zeros\<close> raise \<open>ValueError\<close>.
\<close>

datatype error = ValueError

type_synonym matrix = "real list list"

definition random_rows ::
  "(int \<Rightarrow> 's \<Rightarrow> nat list \<times> 's) \<Rightarrow> int \<Rightarrow> nat \<Rightarrow> nat list list \<times> 's \<Rightarrow> nat list list \<times> 's" where
  "random_rows random_permutation n_inputs i st =
     (case st of (permutations, rng) \<Rightarrow>
        (case random_permutation n_inputs rng of (q, rng') \<Rightarrow> (permutations[i := q], rng')))"

definition generate_permutations ::
  "string \<Rightarrow> (int \<Rightarrow> 's \<Rightarrow> nat list \<times> 's) \<Rightarrow> int \<Rightarrow> int \<Rightarrow> 's
     \<Rightarrow> error + (nat list list \<times> int \<times> 's)" where
  "generate_permutations method random_permutation n_perms n_inputs rng =
     (if method = ''exact'' then
        (if n_inputs < 0 then Inl ValueError
         else (let permutations = permutations_py (py_range n_inputs)
               in Inr (permutations, int (length permutations), rng)))
      else
        (if n_perms < 0 \<or> n_inputs < 0 then Inl ValueError
         else (case fold (random_rows random_permutation n_inputs) (py_range n_perms)
                      (replicate (nat n_perms) (replicate (nat n_inputs) 0), rng) of
                 (permutations, rng') \<Rightarrow> Inr (permutations, int (length permutations), rng'))))"

subsection \<open>The design builder\<close>

text \<open>
  The samplers are collaborators: \<open>Xall n\<close> returns \<open>n\<close> draws of the whole input vector
  as an array of shape \<open>(n_inputs, n)\<close>, and \<open>Xcond n S Sc x\<close> returns \<open>n\<close> draws of the inputs
  \<open>S\<close> as an array of shape \<open>(len(S), n)\<close>. Both draw at random, so they take and return
  the generator's state. The source transposes their result; \<open>draws\<close> is that
  transposition, one row for each draw. An array is the list of its rows, and a result of
  another shape than the contract's is refused with \<open>ValueError\<close>, which numpy raises
  for it at the concatenation or at the assignment below.
\<close>

definition np_T :: "nat \<Rightarrow> 'a list list \<Rightarrow> 'a list list" where
  "np_T n a = map (\<lambda>i. map (\<lambda>r. r ! i) a) [0..<n]"

definition draws :: "int \<Rightarrow> nat \<Rightarrow> matrix \<Rightarrow> error + matrix" where
  "draws n k a =
     (if 0 \<le> n \<and> length a = k \<and> list_all (\<lambda>r. int (length r) = n) a
      then Inr (np_T (nat n) a) else Inl ValueError)"

text \<open>
  \<open>m[a:b, :] = blk\<close> for a matrix \<open>m\<close> of \<open>n_cols\<close> columns: the slice bounds are clipped to
  the matrix, and the block must have the shape of the slice.
\<close>

definition assign_rows :: "matrix \<Rightarrow> int \<Rightarrow> int \<Rightarrow> int \<Rightarrow> matrix \<Rightarrow> error + matrix" where
  "assign_rows m n_cols a b blk =
     (let lo = min (slice_bound m a) (length m);
          hi = max lo (min (slice_bound m b) (length m))
      in if length blk = hi - lo \<and> list_all (\<lambda>r. int (length r) = n_cols) blk
         then Inr (take lo m @ blk @ drop hi m) else Inl ValueError)"

definition inner_indices :: "int \<Rightarrow> int \<Rightarrow> int \<Rightarrow> int \<Rightarrow> nat \<Rightarrow> nat \<Rightarrow> nat \<Rightarrow> int" where
  "inner_indices n_output n_inputs n_outer n_inner p j l =
     n_output + int p * (n_inputs - 1) * n_outer * n_inner
       + (int j - 1) * n_outer * n_inner + int l * n_inner"

text \<open>\<open>concatenated_sample[:, perms_sorted]\<close> on one row.\<close>

definition take_columns :: "'a list \<Rightarrow> nat list \<Rightarrow> 'a list" where
  "take_columns row cols = map (\<lambda>c. row ! c) cols"

type_synonym 's sampler = "int \<Rightarrow> nat list \<Rightarrow> nat list option \<Rightarrow> real list option \<Rightarrow> 's \<Rightarrow> matrix \<times> 's"

text \<open>The body of the loop over \<open>l\<close>: one block of \<open>n_inner\<close> rows.\<close>

definition write_block ::
  "'s sampler \<Rightarrow> int \<Rightarrow> int \<Rightarrow> int \<Rightarrow> int \<Rightarrow> nat \<Rightarrow> nat list \<Rightarrow> nat \<Rightarrow> matrix \<Rightarrow> nat
     \<Rightarrow> matrix \<times> 's \<Rightarrow> error + (matrix \<times> 's)" where
  "write_block Xcond n_inputs n_output n_outer n_inner p perms j xjc_sampled l st =
     (case st of (model_inputs, rng) \<Rightarrow>
       (let perms_sorted = argsort perms;
            Sj = take j perms;
            Sjc = drop j perms;
            xjc = xjc_sampled ! l
        in case Xcond n_inner Sj (Some Sjc) (Some xjc) rng of (smp, rng') \<Rightarrow>
          (case draws n_inner (length Sj) smp of Inl e \<Rightarrow> Inl e
           | Inr sample_inputs \<Rightarrow>
              (let concatenated_sample = map (\<lambda>r. r @ xjc) sample_inputs;
                   i0 = inner_indices n_output n_inputs n_outer n_inner p j l
               in case assign_rows model_inputs n_inputs i0 (i0 + n_inner)
                         (map (\<lambda>r. take_columns r perms_sorted) concatenated_sample) of
                    Inl e \<Rightarrow> Inl e
                  | Inr m \<Rightarrow> Inr (m, rng')))))"

text \<open>The body of the loop over \<open>j\<close>: the outer draws of \<open>Sjc\<close>, then a block for each.\<close>

definition write_split ::
  "'s sampler \<Rightarrow> int \<Rightarrow> int \<Rightarrow> int \<Rightarrow> int \<Rightarrow> nat \<Rightarrow> nat list \<Rightarrow> nat
     \<Rightarrow> matrix \<times> 's \<Rightarrow> error + (matrix \<times> 's)" where
  "write_split Xcond n_inputs n_output n_outer n_inner p perms j st =
     (case st of (model_inputs, rng) \<Rightarrow>
       (case Xcond n_outer (drop j perms) None None rng of (smp, rng') \<Rightarrow>
          (case draws n_outer (length (drop j perms)) smp of Inl e \<Rightarrow> Inl e
           | Inr xjc_sampled \<Rightarrow>
               fold (\<lambda>l r. case r of Inl e \<Rightarrow> Inl e
                              | Inr st' \<Rightarrow> write_block Xcond n_inputs n_output n_outer n_inner p perms j xjc_sampled l st')
                    (py_range n_outer) (Inr (model_inputs, rng')))))"

text \<open>The body of the loop over \<open>p\<close>; \<open>range(1, n_inputs)\<close> is \<open>[1..<nat n_inputs]\<close>.\<close>

definition write_perm ::
  "'s sampler \<Rightarrow> nat list list \<Rightarrow> int \<Rightarrow> int \<Rightarrow> int \<Rightarrow> int \<Rightarrow> nat
     \<Rightarrow> matrix \<times> 's \<Rightarrow> error + (matrix \<times> 's)" where
  "write_perm Xcond permutations n_inputs n_output n_outer n_inner p st =
     fold (\<lambda>j r. case r of Inl e \<Rightarrow> Inl e
                    | Inr st' \<Rightarrow> write_split Xcond n_inputs n_output n_outer n_inner p (permutations ! p) j st')
          [1..<nat n_inputs] (Inr st)"

definition n_rows :: "int \<Rightarrow> int \<Rightarrow> int \<Rightarrow> int \<Rightarrow> int \<Rightarrow> int" where
  "n_rows n_perms n_inputs n_output n_outer n_inner =
     n_output + n_perms * (n_inputs - 1) * n_outer * n_inner"

text \<open>
  The whole builder: \<open>np.zeros\<close> (a negative dimension raises), the unconditional block,
  then the three nested loops.
\<close>

definition build_design ::
  "(int \<Rightarrow> 's \<Rightarrow> matrix \<times> 's) \<Rightarrow> 's sampler \<Rightarrow> nat list list \<Rightarrow> int \<Rightarrow> int \<Rightarrow> int \<Rightarrow> int \<Rightarrow> int
     \<Rightarrow> 's \<Rightarrow> error + (matrix \<times> 's)" where
  "build_design Xall Xcond permutations n_perms n_inputs n_output n_outer n_inner rng =
     (if n_rows n_perms n_inputs n_output n_outer n_inner < 0 \<or> n_inputs < 0 then Inl ValueError
      else
        (let zeros = replicate (nat (n_rows n_perms n_inputs n_output n_outer n_inner))
                               (replicate (nat n_inputs) 0)
         in case Xall n_output rng of (xa, rng') \<Rightarrow>
           (case draws n_output (nat n_inputs) xa of Inl e \<Rightarrow> Inl e
            | Inr unconditional \<Rightarrow>
               (case assign_rows zeros n_inputs 0 n_output unconditional of Inl e \<Rightarrow> Inl e
                | Inr model_inputs \<Rightarrow>
                    fold (\<lambda>p r. case r of Inl e \<Rightarrow> Inl e
                                   | Inr st \<Rightarrow> write_perm Xcond permutations n_inputs n_output n_outer n_inner p st)
                         (py_range n_perms) (Inr (model_inputs, rng'))))))"

subsection \<open>The effect estimator\<close>

record est_state =
  output' :: "real list"
  conditional_variance :: "fv list"
  shapley_effects :: "fv list"
  shapley_effects_squared :: "fv list"
  previous_cost :: fv

text \<open>The body of the loop over \<open>l\<close>: strip one block of \<open>n_inner\<close> outputs.\<close>

definition block_step :: "int \<Rightarrow> nat \<Rightarrow> est_state \<Rightarrow> est_state" where
  "block_step n_inner l s =
     (let model_output = slice_to (output' s) n_inner
      in s\<lparr>output' := slice_from (output' s) n_inner,
           conditional_variance := (conditional_variance s)[l := np_var 1 model_output]\<rparr>)"

text \<open>The two branches that set \<open>estimated_cost\<close>.\<close>

definition estimate_cost :: "int \<Rightarrow> int \<Rightarrow> int \<Rightarrow> fv \<Rightarrow> nat \<Rightarrow> est_state \<Rightarrow> fv \<times> est_state" where
  "estimate_cost n_inputs n_outer n_inner output_variance j s =
     (if int j = n_inputs - 1 then (output_variance, s)
      else (let s' = fold (block_step n_inner) (py_range n_outer) s
            in (np_mean (conditional_variance s'), s')))"

text \<open>\<open>delta = estimated_cost - previous_cost\<close>, with the cost and the state.\<close>

definition split_delta :: "int \<Rightarrow> int \<Rightarrow> int \<Rightarrow> fv \<Rightarrow> nat \<Rightarrow> est_state \<Rightarrow> fv \<times> fv \<times> est_state" where
  "split_delta n_inputs n_outer n_inner output_variance j s =
     (case estimate_cost n_inputs n_outer n_inner output_variance j s of
        (estimated_cost, s') \<Rightarrow> (fsub estimated_cost (previous_cost s'), estimated_cost, s'))"

text \<open>
  The body of the loop over \<open>j\<close>. \<open>perms\<close> is a row of \<open>permutations\<close>, so \<open>perms ! j\<close> is an
  index of the accumulators.
\<close>

definition split_step :: "int \<Rightarrow> int \<Rightarrow> int \<Rightarrow> fv \<Rightarrow> nat list \<Rightarrow> nat \<Rightarrow> est_state \<Rightarrow> est_state" where
  "split_step n_inputs n_outer n_inner output_variance perms j s =
     (case split_delta n_inputs n_outer n_inner output_variance j s of
        (delta, estimated_cost, s') \<Rightarrow>
          s'\<lparr>shapley_effects :=
               (shapley_effects s')[perms ! j := fadd (shapley_effects s' ! (perms ! j)) delta],
             shapley_effects_squared :=
               (shapley_effects_squared s')
                 [perms ! j := fadd (shapley_effects_squared s' ! (perms ! j)) (fmul delta delta)],
             previous_cost := estimated_cost\<rparr>)"

text \<open>The body of the loop over \<open>p\<close>.\<close>

definition perm_step :: "nat list list \<Rightarrow> int \<Rightarrow> int \<Rightarrow> int \<Rightarrow> fv \<Rightarrow> nat \<Rightarrow> est_state \<Rightarrow> est_state" where
  "perm_step permutations n_inputs n_outer n_inner output_variance p s =
     fold (split_step n_inputs n_outer n_inner output_variance (permutations ! p))
          (py_range n_inputs) (s\<lparr>previous_cost := Some 0\<rparr>)"

definition output_variance_of :: "int \<Rightarrow> real list \<Rightarrow> fv" where
  "output_variance_of n_output out = np_var 0 (slice_to out n_output)"

definition init_state :: "int \<Rightarrow> int \<Rightarrow> int \<Rightarrow> real list \<Rightarrow> est_state" where
  "init_state n_inputs n_output n_outer out =
     \<lparr>output' = slice_from out n_output,
      conditional_variance = replicate (nat n_outer) (Some 0),
      shapley_effects = replicate (nat n_inputs) (Some 0),
      shapley_effects_squared = replicate (nat n_inputs) (Some 0),
      previous_cost = Some 0\<rparr>"

definition estimate_loop ::
  "nat list list \<Rightarrow> int \<Rightarrow> int \<Rightarrow> int \<Rightarrow> int \<Rightarrow> int \<Rightarrow> real list \<Rightarrow> est_state" where
  "estimate_loop permutations n_perms n_inputs n_output n_outer n_inner out =
     fold (perm_step permutations n_inputs n_outer n_inner (output_variance_of n_output out))
          (py_range n_perms) (init_state n_inputs n_output n_outer out)"

text \<open>The normalisations, the standard errors and the confidence bounds.\<close>

definition normalized_effects :: "int \<Rightarrow> fv \<Rightarrow> fv list \<Rightarrow> fv list" where
  "normalized_effects n_perms output_variance acc =
     map (\<lambda>x. fdiv (fdiv x (Some (real_of_int n_perms))) output_variance) acc"

definition normalized_squares :: "int \<Rightarrow> fv \<Rightarrow> fv list \<Rightarrow> fv list" where
  "normalized_squares n_perms output_variance acc2 =
     map (\<lambda>x. fdiv (fdiv x (Some (real_of_int n_perms))) (fmul output_variance output_variance)) acc2"

definition standard_errors_of :: "int \<Rightarrow> fv list \<Rightarrow> fv list \<Rightarrow> fv list" where
  "standard_errors_of n_perms squares effects =
     map2 (\<lambda>q e. fsqrt (fdiv (fsub q (fmul e e)) (Some (real_of_int n_perms)))) squares effects"

definition CI_min_of :: "fv list \<Rightarrow> fv list \<Rightarrow> fv list" where
  "CI_min_of effects standard_errors = map2 (\<lambda>e se. fsub e (fmul (Some 1.96) se)) effects standard_errors"

definition CI_max_of :: "fv list \<Rightarrow> fv list \<Rightarrow> fv list" where
  "CI_max_of effects standard_errors = map2 (\<lambda>e se. fadd e (fmul (Some 1.96) se)) effects standard_errors"

subsection \<open>The result table\<close>

text \<open>\<open>str(n)\<close> for a natural number.\<close>

function str_nat :: "nat \<Rightarrow> string" where
  "str_nat n = (if n < 10 then [char_of (48 + n)] else str_nat (n div 10) @ [char_of (48 + n mod 10)])"
  by pat_completeness auto
termination
  by (relation "measure id") auto

record dataframe =
  df_index :: "string list"
  df_columns :: "string list"
  df_values :: "fv list list"

definition df_T :: "dataframe \<Rightarrow> dataframe" where
  "df_T d = \<lparr>df_index = df_columns d, df_columns = df_index d,
            df_values = np_T (length (df_columns d)) (df_values d)\<rparr>"

definition effects_table :: "int \<Rightarrow> int \<Rightarrow> fv \<Rightarrow> est_state \<Rightarrow> dataframe" where
  "effects_table n_perms n_inputs output_variance s =
     (let effects = normalized_effects n_perms output_variance (shapley_effects s);
          squares = normalized_squares n_perms output_variance (shapley_effects_squared s);
          standard_errors = standard_errors_of n_perms squares effects;
          CI_min = CI_min_of effects standard_errors;
          CI_max = CI_max_of effects standard_errors;
          col = map (\<lambda>i. ''X'' @ str_nat (i + 1)) (py_range n_inputs)
      in df_T \<lparr>df_index = [''Shapley effects'', ''std. errors'', ''CI_min'', ''CI_max''],
                df_columns = col,
                df_values = [effects, standard_errors, CI_min, CI_max]\<rparr>)"

text \<open>
  The estimator, from the model's output: \<open>np.zeros(n_inputs)\<close> and \<open>np.zeros(n_outer)\<close>
  raise on a negative size.
\<close>

definition estimate_effects ::
  "nat list list \<Rightarrow> int \<Rightarrow> int \<Rightarrow> int \<Rightarrow> int \<Rightarrow> int \<Rightarrow> real list \<Rightarrow> error + dataframe" where
  "estimate_effects permutations n_perms n_inputs n_output n_outer n_inner out =
     (if n_inputs < 0 \<or> n_outer < 0 then Inl ValueError
      else Inr (effects_table n_perms n_inputs (output_variance_of n_output out)
                  (estimate_loop permutations n_perms n_inputs n_output n_outer n_inner out)))"

subsection \<open>The entry point\<close>

definition get_shapley ::
  "string \<Rightarrow> (matrix \<Rightarrow> real list) \<Rightarrow> (int \<Rightarrow> 's \<Rightarrow> matrix \<times> 's) \<Rightarrow> 's sampler
     \<Rightarrow> (int \<Rightarrow> 's \<Rightarrow> nat list \<times> 's) \<Rightarrow> int \<Rightarrow> int \<Rightarrow> int \<Rightarrow> int \<Rightarrow> int \<Rightarrow> 's
     \<Rightarrow> error + dataframe" where
  "get_shapley method model Xall Xcond random_permutation n_perms n_inputs n_output n_outer n_inner rng =
     (case generate_permutations method random_permutation n_perms n_inputs rng of
        Inl e \<Rightarrow> Inl e
      | Inr (permutations, n_perms', rng1) \<Rightarrow>
          (case build_design Xall Xcond permutations n_perms' n_inputs n_output n_outer n_inner rng1 of
             Inl e \<Rightarrow> Inl e
           | Inr (model_inputs, rng2) \<Rightarrow>
               estimate_effects permutations n_perms' n_inputs n_output n_outer n_inner
                 (model model_inputs)))"

subsection \<open>Auxiliary notions for the properties\<close>

text \<open>
  The blocks of the design in the order they are written: block \<open>(p, j, l)\<close> is the
  \<open>block_number\<close>-th one, counted from zero.
\<close>

definition block_number :: "nat \<Rightarrow> nat \<Rightarrow> nat \<Rightarrow> nat \<Rightarrow> nat \<Rightarrow> nat" where
  "block_number N U p j l = (p * (N - 1) + (j - 1)) * U + l"

text \<open>The shape of the design matrix, with the generator's state beside it.\<close>

definition design_shape :: "nat \<Rightarrow> int \<Rightarrow> matrix \<times> 's \<Rightarrow> bool" where
  "design_shape rows cols st = (length (fst st) = rows \<and> list_all (\<lambda>r. int (length r) = cols) (fst st))"

text \<open>
  The estimator's state when it is about to strip block \<open>l\<close> of split \<open>j\<close> of permutation
  \<open>p\<close>: the loop over the permutations has run \<open>p\<close> times, \<open>previous_cost\<close> has been reset,
  the loop over the splits has run \<open>j\<close> times and the loop over the blocks \<open>l\<close> times.
\<close>

definition state_at ::
  "nat list list \<Rightarrow> int \<Rightarrow> int \<Rightarrow> int \<Rightarrow> fv \<Rightarrow> nat \<Rightarrow> nat \<Rightarrow> nat \<Rightarrow> est_state \<Rightarrow> est_state" where
  "state_at permutations n_inputs n_outer n_inner output_variance p j l s0 =
     fold (block_step n_inner) [0..<l]
       (fold (split_step n_inputs n_outer n_inner output_variance (permutations ! p)) [0..<j]
          ((fold (perm_step permutations n_inputs n_outer n_inner output_variance) [0..<p] s0)
             \<lparr>previous_cost := Some 0\<rparr>))"

text \<open>The variances of the first \<open>U\<close> blocks of \<open>I\<close> values of a list.\<close>

definition block_variances :: "nat \<Rightarrow> nat \<Rightarrow> real list \<Rightarrow> fv list" where
  "block_variances I U out = map (\<lambda>l. np_var 1 (take I (drop (l * I) out))) [0..<U]"

section \<open>Properties\<close>

subsection \<open>Ranges and slices\<close>

lemma py_range_int: "py_range (int n) = [0..<n]"
  by (simp add: py_range_def)

subsection \<open>The exact permutations\<close>

declare permutations_py.simps [simp del]

lemma permutations_py_Nil: "permutations_py [] = [[]]"
  by (subst permutations_py.simps) simp

lemma permutations_py_unfold:
  "pool \<noteq> [] \<Longrightarrow> permutations_py pool =
     concat (map (\<lambda>i. map ((#) (pool ! i)) (permutations_py (take i pool @ drop (Suc i) pool)))
                 [0..<length pool])"
  by (subst permutations_py.simps) simp

lemma length_permutations_py: "length (permutations_py xs) = fact (length xs)"
proof (induction xs rule: permutations_py.induct)
  case (1 pool)
  show ?case
  proof (cases "pool = []")
    case True
    then show ?thesis by (simp add: permutations_py_Nil)
  next
    case False
    then obtain m where m: "length pool = Suc m" by (cases pool) auto
    have IH: "length (permutations_py (take i pool @ drop (Suc i) pool)) = fact m"
      if "i < length pool" for i
    proof -
      have "length (take i pool @ drop (Suc i) pool) = m" using that m by simp
      moreover have "i \<in> set [0..<length pool]" using that by simp
      ultimately show ?thesis using 1[OF False, of i] by simp
    qed
    have "length (permutations_py pool) =
        sum_list (map (\<lambda>i. length (permutations_py (take i pool @ drop (Suc i) pool))) [0..<length pool])"
      by (simp add: permutations_py_unfold[OF False] length_concat comp_def)
    also have "\<dots> = sum_list (map (\<lambda>i. fact m) [0..<length pool])"
      by (rule arg_cong[where f = sum_list], rule map_cong) (auto simp: IH)
    also have "\<dots> = fact (length pool)"
      by (simp add: sum_list_triv m)
    finally show ?thesis .
  qed
qed

lemma mset_delete_nth:
  "i < length xs \<Longrightarrow> add_mset (xs ! i) (mset (take i xs @ drop (Suc i) xs)) = mset xs"
proof -
  assume "i < length xs"
  then have "xs = take i xs @ xs ! i # drop (Suc i) xs" by (rule id_take_nth_drop)
  then have "mset xs = mset (take i xs @ xs ! i # drop (Suc i) xs)" by simp
  then show ?thesis by simp
qed

lemma set_permutations_py: "set (permutations_py xs) = {p. mset p = mset xs}"
proof (induction xs rule: permutations_py.induct)
  case (1 pool)
  show ?case
  proof (cases "pool = []")
    case True
    then show ?thesis by (auto simp add: permutations_py_Nil)
  next
    case False
    have IH: "set (permutations_py (take i pool @ drop (Suc i) pool)) = {p. mset p = mset (take i pool @ drop (Suc i) pool)}"
      if "i < length pool" for i
      using 1[OF False, of i] that by simp
    show ?thesis
    proof (intro set_eqI iffI)
      fix p assume "p \<in> set (permutations_py pool)"
      then obtain i q where i: "i < length pool" and p: "p = pool ! i # q"
        and q: "q \<in> set (permutations_py (take i pool @ drop (Suc i) pool))"
        by (auto simp: permutations_py_unfold[OF False])
      from q IH[OF i] have "mset q = mset (take i pool @ drop (Suc i) pool)" by simp
      with mset_delete_nth[OF i] p show "p \<in> {p. mset p = mset pool}" by simp
    next
      fix p assume "p \<in> {p. mset p = mset pool}"
      then have mp: "mset p = mset pool" by simp
      with False have "p \<noteq> []" by auto
      then obtain x q where p: "p = x # q" by (cases p) auto
      from mp p have "x \<in> set pool" by (metis list.set_intros(1) mset_eq_setD)
      then obtain i where i: "i < length pool" and x: "pool ! i = x" by (auto simp: in_set_conv_nth)
      from mset_delete_nth[OF i] mp p x
      have "add_mset x (mset q) = add_mset x (mset (take i pool @ drop (Suc i) pool))" by simp
      then have "mset q = mset (take i pool @ drop (Suc i) pool)" by simp
      with IH[OF i] have "q \<in> set (permutations_py (take i pool @ drop (Suc i) pool))" by simp
      with i x p show "p \<in> set (permutations_py pool)"
        by (auto simp: permutations_py_unfold[OF False] intro!: bexI[of _ i])
    qed
  qed
qed

lemma sorted_wrt_concat_map:
  "(\<And>i. i \<in> set js \<Longrightarrow> sorted_wrt R (f i)) \<Longrightarrow>
   sorted_wrt (\<lambda>i j. \<forall>x\<in>set (f i). \<forall>y\<in>set (f j). R x y) js \<Longrightarrow>
   sorted_wrt R (concat (map f js))"
  by (induction js) (auto simp: sorted_wrt_append)

lemma sorted_wrt_delete_nth:
  "sorted_wrt R xs \<Longrightarrow> sorted_wrt R (take i xs @ drop (Suc i) xs)"
proof -
  assume s: "sorted_wrt R xs"
  have "sorted_wrt R (take i xs @ drop i xs)" using s by simp
  then have c: "\<forall>x\<in>set (take i xs). \<forall>y\<in>set (drop i xs). R x y"
    by (simp only: sorted_wrt_append) blast
  have "set (drop (Suc i) xs) \<subseteq> set (drop i xs)"
    by (rule set_drop_subset_set_drop) simp
  with c have "\<forall>x\<in>set (take i xs). \<forall>y\<in>set (drop (Suc i) xs). R x y" by blast
  with s show ?thesis
    by (simp add: sorted_wrt_append sorted_wrt_take sorted_wrt_drop)
qed

lemma sorted_permutations_py:
  "sorted_wrt (<) (xs :: nat list) \<Longrightarrow> sorted_wrt (<) (permutations_py xs)"
proof (induction xs rule: permutations_py.induct)
  case (1 pool)
  show ?case
  proof (cases "pool = []")
    case True
    then show ?thesis by (simp add: permutations_py_Nil)
  next
    case False
    have IH: "sorted_wrt (<) (permutations_py (take i pool @ drop (Suc i) pool))"
      if "i < length pool" for i
      using 1(1)[OF False, of i] that sorted_wrt_delete_nth[OF 1(2)] by simp
    show ?thesis
      unfolding permutations_py_unfold[OF False]
    proof (rule sorted_wrt_concat_map)
      fix i assume "i \<in> set [0..<length pool]"
      then have "i < length pool" by simp
      from IH[OF this] show "sorted_wrt (<) (map ((#) (pool ! i)) (permutations_py (take i pool @ drop (Suc i) pool)))"
        by (simp add: sorted_wrt_map)
    next
      have "pool ! i < pool ! j" if "i < j" "j < length pool" for i j
        using 1(2) that by (simp add: sorted_wrt_iff_nth_less)
      then show "sorted_wrt (\<lambda>i j. \<forall>x\<in>set (map ((#) (pool ! i)) (permutations_py (take i pool @ drop (Suc i) pool))).
            \<forall>y\<in>set (map ((#) (pool ! j)) (permutations_py (take j pool @ drop (Suc j) pool))). x < y) [0..<length pool]"
        by (auto simp: sorted_wrt_iff_nth_less)
    qed
  qed
qed


lemma distinct_permutations_py:
  "sorted_wrt (<) (xs :: nat list) \<Longrightarrow> distinct (permutations_py xs)"
  using sorted_permutations_py[of xs] by (simp add: strict_sorted_iff)

lemma valid_permutation_iff:
  "mset p = mset [0..<n] \<longleftrightarrow> length p = n \<and> distinct p \<and> set p = {0..<n}"
proof
  assume m: "mset p = mset [0..<n]"
  then have "length p = n" by (metis length_upt diff_zero size_mset)
  moreover have "distinct p" using m by (metis distinct_upt mset_eq_imp_distinct_iff)
  moreover have "set p = {0..<n}" using m by (metis mset_eq_setD set_upt)
  ultimately show "length p = n \<and> distinct p \<and> set p = {0..<n}" by simp
next
  assume "length p = n \<and> distinct p \<and> set p = {0..<n}"
  then show "mset p = mset [0..<n]"
    by (metis distinct_upt set_eq_iff_mset_eq_distinct set_upt)
qed

text \<open>
  C7. In exact mode the generator returns the \<open>n_inputs!\<close> permutations of
  \<open>0, ..., n_inputs - 1\<close>: each index once in every one of them, no permutation twice, none
  missing, in strictly increasing lexicographic order. \<open>n_perms\<close> is their number, and the
  caller's \<open>n_perms\<close> is not read: the result is the same for any two values of it.
\<close>

theorem exact_mode_permutations:
  "generate_permutations ''exact'' random_permutation n_perms (int n) rng
     = Inr (permutations_py [0..<n], int (fact n), rng)
   \<and> length (permutations_py [0..<n]) = fact n
   \<and> distinct (permutations_py [0..<n])
   \<and> set (permutations_py [0..<n]) = {p. length p = n \<and> distinct p \<and> set p = {0..<n}}
   \<and> sorted_wrt (<) (permutations_py [0..<n])
   \<and> get_shapley ''exact'' model Xall Xcond random_permutation n_perms (int n) n_output n_outer n_inner rng
     = get_shapley ''exact'' model Xall Xcond random_permutation n_perms' (int n) n_output n_outer n_inner rng"
proof -
  have s: "sorted_wrt (<) [0..<n]" by (simp add: sorted_wrt_iff_nth_less)
  have g: "generate_permutations ''exact'' random_permutation k (int n) rng
     = Inr (permutations_py [0..<n], int (fact n), rng)" for k
    by (simp add: generate_permutations_def py_range_int length_permutations_py)
  have "set (permutations_py [0..<n]) = {p. length p = n \<and> distinct p \<and> set p = {0..<n}}"
    by (simp only: set_permutations_py valid_permutation_iff)
  moreover have "get_shapley ''exact'' model Xall Xcond random_permutation n_perms (int n) n_output n_outer n_inner rng
     = get_shapley ''exact'' model Xall Xcond random_permutation n_perms' (int n) n_output n_outer n_inner rng"
    by (simp add: get_shapley_def g)
  ultimately show ?thesis
    using g[of n_perms] length_permutations_py[of "[0..<n]"]
      distinct_permutations_py[OF s] sorted_permutations_py[OF s]
    by simp
qed

subsection \<open>The inverse permutation and the block offsets\<close>





lemma lin_index_inj:
  fixes a l a' l' U :: nat
  assumes "l < U" "l' < U" "a * U + l = a' * U + l'"
  shows "a = a' \<and> l = l'"
proof -
  have U: "U \<noteq> 0" using assms(1) by simp
  have "(a * U + l) div U = a + l div U" "(a' * U + l') div U = a' + l' div U"
    using U by (rule div_mult_self3)+
  then have "(a * U + l) div U = a" "(a' * U + l') div U = a'" using assms(1,2) by simp_all
  with assms(3) have "a = a'" by simp
  with assms(3) show ?thesis by simp
qed

lemma lin_index_less:
  fixes a l A U :: nat
  assumes "l < U" "a < A"
  shows "a * U + l < A * U"
proof -
  have "a * U + l < Suc a * U" using assms by simp
  also have "Suc a * U \<le> A * U" using assms by (intro mult_le_mono1) simp
  finally show ?thesis .
qed

lemma inner_indices_block_number:
  assumes "1 \<le> j" "j < N"
  shows "inner_indices (int O') (int N) (int U) (int I) p j l = int (O' + block_number N U p j l * I)"
proof -
  from assms obtain j' where j: "j = Suc j'" by (cases j) auto
  from assms obtain N' where N: "N = Suc N'" by (cases N) auto
  show ?thesis
    by (simp add: inner_indices_def block_number_def j N algebra_simps)
qed

lemma block_number_inj:
  assumes "1 \<le> j" "j < N" "l < U" "1 \<le> j'" "j' < N" "l' < U"
    and "block_number N U p j l = block_number N U p' j' l'"
  shows "p = p' \<and> j = j' \<and> l = l'"
proof -
  from lin_index_inj[OF assms(3) assms(6) assms(7)[unfolded block_number_def]]
  have e: "p * (N - 1) + (j - 1) = p' * (N - 1) + (j' - 1)" and l: "l = l'" by auto
  have "j - 1 < N - 1" "j' - 1 < N - 1" using assms by auto
  from lin_index_inj[OF this e] assms(1,4) l show ?thesis by auto
qed

lemma block_number_less:
  assumes "1 \<le> j" "j < N" "l < U" "p < P"
  shows "block_number N U p j l < P * (N - 1) * U"
proof -
  have "j - 1 < N - 1" using assms by auto
  from lin_index_less[OF this assms(4)] have "p * (N - 1) + (j - 1) < P * (N - 1)" .
  from lin_index_less[OF assms(3) this] show ?thesis by (simp add: block_number_def)
qed

lemma n_rows_nat:
  "1 \<le> N \<Longrightarrow> n_rows (int P) (int N) (int O') (int U) (int I) = int (O' + P * (N - 1) * U * I)"
  by (simp add: n_rows_def of_nat_diff)

lemma blocks_disjoint:
  assumes "1 \<le> j" "j < N" "l < U" "1 \<le> j'" "j' < N" "l' < U" "(p, j, l) \<noteq> (p', j', l')"
  shows "inner_indices (int O') (int N) (int U) (int I) p j l + int I \<le> inner_indices (int O') (int N) (int U) (int I) p' j' l'
       \<or> inner_indices (int O') (int N) (int U) (int I) p' j' l' + int I \<le> inner_indices (int O') (int N) (int U) (int I) p j l"
proof -
  let ?k = "block_number N U p j l" and ?k' = "block_number N U p' j' l'"
  have "?k \<noteq> ?k'" using block_number_inj[OF assms(1-6)] assms(7) by auto
  then consider "Suc ?k \<le> ?k'" | "Suc ?k' \<le> ?k" by linarith
  then show ?thesis
  proof cases
    case 1
    then have "Suc ?k * I \<le> ?k' * I" by (rule mult_le_mono1)
    then have "int (Suc ?k * I) \<le> int (?k' * I)" by (simp only: of_nat_le_iff)
    then show ?thesis
      unfolding inner_indices_block_number[OF assms(1,2)] inner_indices_block_number[OF assms(4,5)]
      by (simp add: algebra_simps)
  next
    case 2
    then have "Suc ?k' * I \<le> ?k * I" by (rule mult_le_mono1)
    then have "int (Suc ?k' * I) \<le> int (?k * I)" by (simp only: of_nat_le_iff)
    then show ?thesis
      unfolding inner_indices_block_number[OF assms(1,2)] inner_indices_block_number[OF assms(4,5)]
      by (simp add: algebra_simps)
  qed
qed

lemma blocks_in_bounds:
  assumes "1 \<le> j" "j < N" "l < U" "p < P"
  shows "int O' \<le> inner_indices (int O') (int N) (int U) (int I) p j l"
    and "inner_indices (int O') (int N) (int U) (int I) p j l + int I
           \<le> n_rows (int P) (int N) (int O') (int U) (int I)"
proof -
  show "int O' \<le> inner_indices (int O') (int N) (int U) (int I) p j l"
    unfolding inner_indices_block_number[OF assms(1,2)] by simp
  have "Suc (block_number N U p j l) \<le> P * (N - 1) * U"
    using block_number_less[OF assms] by simp
  then have "Suc (block_number N U p j l) * I \<le> P * (N - 1) * U * I" by (rule mult_le_mono1)
  then have "int (Suc (block_number N U p j l) * I) \<le> int (P * (N - 1) * U * I)"
    by (simp only: of_nat_le_iff)
  moreover have N: "1 \<le> N" using assms by simp
  moreover from N obtain N' where "N = Suc N'" by (cases N) auto
  ultimately show "inner_indices (int O') (int N) (int U) (int I) p j l + int I
           \<le> n_rows (int P) (int N) (int O') (int U) (int I)"
    unfolding inner_indices_block_number[OF assms(1,2)] n_rows_nat[OF N]
    by (simp add: algebra_simps)
qed

subsection \<open>The design builder\<close>

lemma slice_bound_nonneg: "0 \<le> k \<Longrightarrow> slice_bound xs k = nat k"
  by (simp add: slice_bound_def)

lemma slice_to_int: "slice_to xs (int n) = take n xs"
  by (simp add: slice_to_def slice_bound_def)

lemma slice_from_int: "slice_from xs (int n) = drop n xs"
  by (simp add: slice_from_def slice_bound_def)

lemma length_np_T: "length (np_T n a) = n"
  by (simp add: np_T_def)

lemma nth_np_T: "r < n \<Longrightarrow> np_T n a ! r = map (\<lambda>row. row ! r) a"
  by (simp add: np_T_def)

lemma draws_Inr:
  assumes "draws n k a = Inr d"
  shows "0 \<le> n" "length a = k" "d = np_T (nat n) a"
  using assms by (auto simp: draws_def split: if_splits)

lemma assign_rows_Inr:
  assumes "assign_rows m c a b blk = Inr m'"
  shows "length m' = length m"
    and "list_all (\<lambda>r. int (length r) = c) m \<Longrightarrow> list_all (\<lambda>r. int (length r) = c) m'"
proof -
  let ?lo = "min (slice_bound m a) (length m)"
  let ?hi = "max ?lo (min (slice_bound m b) (length m))"
  from assms have l: "length blk = ?hi - ?lo" and c: "list_all (\<lambda>r. int (length r) = c) blk"
    and m': "m' = take ?lo m @ blk @ drop ?hi m"
    by (auto simp: assign_rows_def Let_def split: if_splits)
  show "length m' = length m" using l m' by (simp add: min_def max_def)
  show "list_all (\<lambda>r. int (length r) = c) m'" if "list_all (\<lambda>r. int (length r) = c) m"
    using that c unfolding m' list_all_iff
    by (auto dest: in_set_takeD in_set_dropD)
qed

lemma assign_rows_block:
  assumes "assign_rows m c a b blk = Inr m'" and "0 \<le> a" "a \<le> b" "b \<le> int (length m)"
  shows "m' = take (nat a) m @ blk @ drop (nat b) m" and "length blk = nat b - nat a"
proof -
  have lo: "min (slice_bound m a) (length m) = nat a" using assms(2-4) by (simp add: slice_bound_def)
  have hi: "max (nat a) (min (slice_bound m b) (length m)) = nat b"
    using assms(2-4) by (simp add: slice_bound_def max_def)
  from assms(1) show "m' = take (nat a) m @ blk @ drop (nat b) m" and "length blk = nat b - nat a"
    by (auto simp: assign_rows_def Let_def lo hi split: if_splits)
qed

lemma fold_result_Inl:
  "fold (\<lambda>x r. case r of Inl e \<Rightarrow> Inl e | Inr s \<Rightarrow> f x s) xs (Inl e) = Inl e"
  by (induction xs) auto

lemma fold_result_invariant:
  assumes "fold (\<lambda>x r. case r of Inl e \<Rightarrow> Inl e | Inr s \<Rightarrow> f x s) xs (Inr s0) = Inr s'"
    and "P s0" and "\<And>x s t. x \<in> set xs \<Longrightarrow> P s \<Longrightarrow> f x s = Inr t \<Longrightarrow> P t"
  shows "P s'"
  using assms
proof (induction xs arbitrary: s0)
  case Nil
  then show ?case by simp
next
  case (Cons x xs)
  show ?case
  proof (cases "f x s0")
    case (Inl e)
    with Cons.prems(1) show ?thesis by (simp add: fold_result_Inl)
  next
    case (Inr t)
    with Cons.prems have "fold (\<lambda>x r. case r of Inl e \<Rightarrow> Inl e | Inr s \<Rightarrow> f x s) xs (Inr t) = Inr s'"
      and "P t" by auto
    then show ?thesis using Cons.IH[of t] Cons.prems(3) by auto
  qed
qed

lemma write_block_shape:
  assumes "write_block Xcond n_inputs n_output n_outer n_inner p perms j xjc_sampled l st = Inr st'"
    and "design_shape rows n_inputs st"
  shows "design_shape rows n_inputs st'"
  using assms
  by (auto simp: write_block_def design_shape_def Let_def assign_rows_Inr
           split: prod.splits sum.splits)

lemma write_split_shape:
  assumes "write_split Xcond n_inputs n_output n_outer n_inner p perms j st = Inr st'"
    and "design_shape rows n_inputs st"
  shows "design_shape rows n_inputs st'"
proof -
  obtain m g where st: "st = (m, g)" by (cases st)
  obtain smp g1 where x: "Xcond n_outer (drop j perms) None None g = (smp, g1)"
    by (cases "Xcond n_outer (drop j perms) None None g")
  from assms(1) obtain xs where
    f: "fold (\<lambda>l r. case r of Inl e \<Rightarrow> Inl e
                   | Inr st' \<Rightarrow> write_block Xcond n_inputs n_output n_outer n_inner p perms j xs l st')
          (py_range n_outer) (Inr (m, g1)) = Inr st'"
    by (auto simp: write_split_def st x split: sum.splits)
  have "design_shape rows n_inputs (m, g1)" using assms(2) by (simp add: st design_shape_def)
  from fold_result_invariant[where P = "design_shape rows n_inputs", OF f this]
  show ?thesis using write_block_shape by blast
qed

lemma write_perm_shape:
  assumes "write_perm Xcond permutations n_inputs n_output n_outer n_inner p st = Inr st'"
    and "design_shape rows n_inputs st"
  shows "design_shape rows n_inputs st'"
  using fold_result_invariant[where P = "design_shape rows n_inputs",
      OF assms(1)[unfolded write_perm_def] assms(2)] write_split_shape
  by blast

lemma build_design_shape:
  assumes "build_design Xall Xcond permutations n_perms n_inputs n_output n_outer n_inner rng = Inr st"
  shows "design_shape (nat (n_rows n_perms n_inputs n_output n_outer n_inner)) n_inputs st"
proof -
  let ?rows = "nat (n_rows n_perms n_inputs n_output n_outer n_inner)"
  let ?zeros = "replicate ?rows (replicate (nat n_inputs) (0::real))"
  obtain xa g1 where x: "Xall n_output rng = (xa, g1)" by (cases "Xall n_output rng")
  from assms obtain u m0 where n: "0 \<le> n_inputs"
    and a: "assign_rows ?zeros n_inputs 0 n_output u = Inr m0"
    and f: "fold (\<lambda>p r. case r of Inl e \<Rightarrow> Inl e
                   | Inr st \<Rightarrow> write_perm Xcond permutations n_inputs n_output n_outer n_inner p st)
          (py_range n_perms) (Inr (m0, g1)) = Inr st"
    by (auto simp: build_design_def Let_def x split: if_splits sum.splits)
  have "list_all (\<lambda>r. int (length r) = n_inputs) ?zeros" using n by (simp add: list_all_iff)
  with assign_rows_Inr[OF a] have "design_shape ?rows n_inputs (m0, g1)"
    by (simp add: design_shape_def)
  from fold_result_invariant[where P = "design_shape ?rows n_inputs", OF f this]
  show ?thesis using write_perm_shape by blast
qed

lemma write_perm_one: "write_perm Xcond permutations 1 n_output n_outer n_inner p st = Inr st"
  by (simp add: write_perm_def)

lemma write_block_rows:
  assumes w: "write_block Xcond (int N) (int O') (int U) (int I) p perms j xjc_sampled l (m, g) = Inr (m', g')"
    and x: "Xcond (int I) (take j perms) (Some (drop j perms)) (Some (xjc_sampled ! l)) g = (smp, g1)"
    and j: "1 \<le> j" "j < N"
    and b: "inner_indices (int O') (int N) (int U) (int I) p j l + int I \<le> int (length m)"
  shows "length m' = length m"
    and "\<And>r. r < I \<Longrightarrow> m' ! (O' + block_number N U p j l * I + r)
             = take_columns (map (\<lambda>row. row ! r) smp @ xjc_sampled ! l) (argsort perms)"
    and "\<And>r. r < length m \<Longrightarrow> r < O' + block_number N U p j l * I \<or> O' + block_number N U p j l * I + I \<le> r
             \<Longrightarrow> m' ! r = m ! r"
    and "length smp = length (take j perms)"
proof -
  let ?off = "O' + block_number N U p j l * I"
  have off: "inner_indices (int O') (int N) (int U) (int I) p j l = int ?off"
    by (rule inner_indices_block_number[OF j])
  from w x obtain d where d: "draws (int I) (length (take j perms)) smp = Inr d"
    and a: "assign_rows m (int N) (int ?off) (int ?off + int I)
              (map (\<lambda>r. take_columns r (argsort perms)) (map (\<lambda>r. r @ xjc_sampled ! l) d)) = Inr m'"
    by (auto simp: write_block_def Let_def off split: sum.splits)
  from draws_Inr[OF d] have dT: "d = np_T I smp" and ls: "length smp = length (take j perms)" by auto
  show "length smp = length (take j perms)" by (rule ls)
  have b': "int ?off + int I \<le> int (length m)" using b off by simp
  from assign_rows_block[OF a _ _ b']
  have m': "m' = take ?off m @ (map (\<lambda>r. take_columns r (argsort perms)) (map (\<lambda>r. r @ xjc_sampled ! l) d)) @ drop (?off + I) m"
    by (simp add: nat_add_distrib nat_mult_distrib)
  from assign_rows_Inr(1)[OF a] show "length m' = length m" .
  have lt: "?off + I \<le> length m" using b' by linarith
  show "m' ! (?off + r) = take_columns (map (\<lambda>row. row ! r) smp @ xjc_sampled ! l) (argsort perms)"
    if "r < I" for r
    using that lt by (simp add: m' nth_append dT length_np_T nth_np_T)
  show "m' ! r = m ! r" if "r < length m" "r < ?off \<or> ?off + I \<le> r" for r
    using that lt by (auto simp add: m' nth_append dT length_np_T)
qed





text \<open>
  C4. The design matrix has \<open>n_output + n_perms * (n_inputs - 1) * n_outer * n_inner\<close> rows
  of \<open>n_inputs\<close> columns. The block of the triple \<open>(p, j, l)\<close> starts at \<open>inner_indices\<close>:
  writing it keeps the number of rows and changes no row outside the \<open>n_inner\<close> rows from
  that offset. Every block lies between row \<open>n_output\<close> and the end of the matrix, and the
  blocks of two different triples do not overlap. With a single input the matrix has
  \<open>n_output\<close> rows and the loop over the splits does nothing.
\<close>

theorem design_matrix_layout:
  "(build_design Xall Xcond permutations (int P) (int N) (int O') (int U) (int I) rng = Inr (M, rng')
      \<longrightarrow> int (length M) = n_rows (int P) (int N) (int O') (int U) (int I)
          \<and> list_all (\<lambda>r. length r = N) M)
   \<and> (1 \<le> N \<longrightarrow> n_rows (int P) (int N) (int O') (int U) (int I) = int (O' + P * (N - 1) * U * I))
   \<and> (1 \<le> j \<and> j < N
        \<and> inner_indices (int O') (int N) (int U) (int I) p j l + int I \<le> int (length m)
        \<and> write_block Xcond (int N) (int O') (int U) (int I) p perms j xjc_sampled l (m, g) = Inr (m', g')
      \<longrightarrow> length m' = length m
          \<and> (\<forall>r < length m. int r < inner_indices (int O') (int N) (int U) (int I) p j l
                \<or> inner_indices (int O') (int N) (int U) (int I) p j l + int I \<le> int r
              \<longrightarrow> m' ! r = m ! r))
   \<and> (p < P \<and> 1 \<le> j \<and> j < N \<and> l < U
      \<longrightarrow> int O' \<le> inner_indices (int O') (int N) (int U) (int I) p j l
          \<and> inner_indices (int O') (int N) (int U) (int I) p j l + int I
               \<le> n_rows (int P) (int N) (int O') (int U) (int I))
   \<and> (1 \<le> j \<and> j < N \<and> l < U \<and> 1 \<le> j' \<and> j' < N \<and> l' < U \<and> (p, j, l) \<noteq> (p', j', l')
      \<longrightarrow> inner_indices (int O') (int N) (int U) (int I) p j l + int I
               \<le> inner_indices (int O') (int N) (int U) (int I) p' j' l'
          \<or> inner_indices (int O') (int N) (int U) (int I) p' j' l' + int I
               \<le> inner_indices (int O') (int N) (int U) (int I) p j l)
   \<and> n_rows (int P) 1 (int O') (int U) (int I) = int O'
   \<and> write_perm Xcond permutations 1 (int O') (int U) (int I) p st = Inr st"
proof (intro conjI impI)
  assume b: "build_design Xall Xcond permutations (int P) (int N) (int O') (int U) (int I) rng = Inr (M, rng')"
  have r: "0 \<le> n_rows (int P) (int N) (int O') (int U) (int I)"
    using b by (auto simp: build_design_def split: if_splits)
  from build_design_shape[OF b] r
  show "int (length M) = n_rows (int P) (int N) (int O') (int U) (int I)"
    and "list_all (\<lambda>r. length r = N) M"
    by (simp_all add: design_shape_def)
next
  assume "1 \<le> N"
  then show "n_rows (int P) (int N) (int O') (int U) (int I) = int (O' + P * (N - 1) * U * I)"
    by (rule n_rows_nat)
next
  assume h: "1 \<le> j \<and> j < N
        \<and> inner_indices (int O') (int N) (int U) (int I) p j l + int I \<le> int (length m)
        \<and> write_block Xcond (int N) (int O') (int U) (int I) p perms j xjc_sampled l (m, g) = Inr (m', g')"
  obtain smp g1 where x: "Xcond (int I) (take j perms) (Some (drop j perms)) (Some (xjc_sampled ! l)) g = (smp, g1)"
    by (cases "Xcond (int I) (take j perms) (Some (drop j perms)) (Some (xjc_sampled ! l)) g")
  from h have j: "1 \<le> j" "j < N" by auto
  from h have hw: "write_block Xcond (int N) (int O') (int U) (int I) p perms j xjc_sampled l (m, g) = Inr (m', g')"
    and hb: "inner_indices (int O') (int N) (int U) (int I) p j l + int I \<le> int (length m)" by auto
  note w = write_block_rows[OF hw x j hb]
  from w(1) show "length m' = length m" .
  show "\<forall>r < length m. int r < inner_indices (int O') (int N) (int U) (int I) p j l
                \<or> inner_indices (int O') (int N) (int U) (int I) p j l + int I \<le> int r
              \<longrightarrow> m' ! r = m ! r"
  proof (intro allI impI)
    fix r assume r: "r < length m" "int r < inner_indices (int O') (int N) (int U) (int I) p j l
                \<or> inner_indices (int O') (int N) (int U) (int I) p j l + int I \<le> int r"
    then have "r < O' + block_number N U p j l * I \<or> O' + block_number N U p j l * I + I \<le> r"
      unfolding inner_indices_block_number[OF j] by linarith
    with w(3)[OF r(1)] show "m' ! r = m ! r" by blast
  qed
next
  assume "p < P \<and> 1 \<le> j \<and> j < N \<and> l < U"
  then show "int O' \<le> inner_indices (int O') (int N) (int U) (int I) p j l"
    and "inner_indices (int O') (int N) (int U) (int I) p j l + int I
               \<le> n_rows (int P) (int N) (int O') (int U) (int I)"
    using blocks_in_bounds[of j N l U p P O' I] by auto
next
  assume "1 \<le> j \<and> j < N \<and> l < U \<and> 1 \<le> j' \<and> j' < N \<and> l' < U \<and> (p, j, l) \<noteq> (p', j', l')"
  then show "inner_indices (int O') (int N) (int U) (int I) p j l + int I
               \<le> inner_indices (int O') (int N) (int U) (int I) p' j' l'
          \<or> inner_indices (int O') (int N) (int U) (int I) p' j' l' + int I
               \<le> inner_indices (int O') (int N) (int U) (int I) p j l"
    using blocks_disjoint[of j N l U j' l' p p' O' I] by blast
next
  show "n_rows (int P) 1 (int O') (int U) (int I) = int O'" by (simp add: n_rows_def)
  show "write_perm Xcond permutations 1 (int O') (int U) (int I) p st = Inr st"
    by (rule write_perm_one)
qed

theorem design_matrix_layout_witness:
  "build_design (\<lambda>n g. (map (\<lambda>i. replicate (nat n) (real i)) [0, 1], g))
      (\<lambda>n S Sc x g. (map (\<lambda>i. replicate (nat n) (10 * real i)) S, g))
      [[0, 1], [1, 0]] (int 2) (int 2) (int 1) (int 1) (int 1) ()
    = Inr ([[0, 1], [0, 10], [0, 10]], ())
   \<and> int (length [[0, 1], [0, 10], [0, 10 :: real]]) = n_rows (int 2) (int 2) (int 1) (int 1) (int 1)
   \<and> list_all (\<lambda>r. length r = 2) [[0, 1], [0, 10], [0, 10 :: real]]
   \<and> (1 :: nat) \<le> 2
   \<and> n_rows (int 2) (int 2) (int 1) (int 1) (int 1) = int (1 + 2 * (2 - 1) * 1 * 1)
   \<and> inner_indices (int 1) (int 2) (int 1) (int 1) 0 1 0 + int 1 \<le> int (length [[0, 1], [0, 0], [0, 0 :: real]])
   \<and> write_block (\<lambda>n S Sc x g. (map (\<lambda>i. replicate (nat n) (10 * real i)) S, g))
        (int 2) (int 1) (int 1) (int 1) 0 [0, 1] 1 [[10]] 0 ([[0, 1], [0, 0], [0, 0]], ())
       = Inr ([[0, 1], [0, 10], [0, 0]], ())
   \<and> length [[0, 1], [0, 10], [0, 0 :: real]] = length [[0, 1], [0, 0], [0, 0 :: real]]
   \<and> ((0 :: nat) < 2 \<and> (1 :: nat) \<le> 1 \<and> (1 :: nat) < 2 \<and> (0 :: nat) < 1)
   \<and> int 1 \<le> inner_indices (int 1) (int 2) (int 1) (int 1) 0 1 0
   \<and> inner_indices (int 1) (int 2) (int 1) (int 1) 0 1 0 + int 1
        \<le> n_rows (int 2) (int 2) (int 1) (int 1) (int 1)
   \<and> (0 :: nat, 1 :: nat, 0 :: nat) \<noteq> (1, 1, 0)
   \<and> (inner_indices (int 1) (int 2) (int 1) (int 1) 0 1 0 + int 1
          \<le> inner_indices (int 1) (int 2) (int 1) (int 1) 1 1 0
        \<or> inner_indices (int 1) (int 2) (int 1) (int 1) 1 1 0 + int 1
          \<le> inner_indices (int 1) (int 2) (int 1) (int 1) 0 1 0)
   \<and> n_rows (int 2) 1 (int 1) (int 1) (int 1) = int 1"
proof -
  let ?XA = "\<lambda>(n :: int) (g :: unit). (map (\<lambda>i. replicate (nat n) (real i)) [0, 1], g)"
  let ?XC = "\<lambda>(n :: int) (S :: nat list) (Sc :: nat list option) (x :: real list option) (g :: unit).
              (map (\<lambda>i. replicate (nat n) (10 * real i)) S, g)"
  have b: "build_design ?XA ?XC [[0, 1], [1, 0]] (int 2) (int 2) (int 1) (int 1) (int 1) ()
             = Inr ([[0, 1], [0, 10], [0, 10]], ())"
    by code_simp
  have w: "write_block ?XC (int 2) (int 1) (int 1) (int 1) 0 [0, 1] 1 [[10]] 0 ([[0, 1], [0, 0], [0, 0]], ())
             = Inr ([[0, 1], [0, 10], [0, 0]], ())"
    by code_simp
  have i: "inner_indices (int 1) (int 2) (int 1) (int 1) 0 1 0 = 1"
    "inner_indices (int 1) (int 2) (int 1) (int 1) 1 1 0 = 2"
    "n_rows (int 2) (int 2) (int 1) (int 1) (int 1) = 3"
    by (simp_all add: inner_indices_def n_rows_def)
  note t = design_matrix_layout[of ?XA ?XC "[[0, 1], [1, 0]]" 2 2 1 1 1 "()"
      "[[0, 1], [0, 10], [0, 10]]" "()" 1 0 0 "[[0, 1], [0, 0], [0, 0]]" "[0, 1]" "[[10]]" "()"
      "[[0, 1], [0, 10], [0, 0]]" "()" 1 0 1]
  from t b w i show ?thesis by (simp add: n_rows_def)
qed

subsection \<open>Floats\<close>

lemma fadd_simps [simp]:
  "fadd (Some a) (Some b) = Some (a + b)" "fadd None y = None" "fadd x None = None"
  by (simp_all add: fadd_def split: option.splits)

lemma fsub_simps [simp]:
  "fsub (Some a) (Some b) = Some (a - b)" "fsub None y = None" "fsub x None = None"
  by (simp_all add: fsub_def split: option.splits)

lemma fmul_simps [simp]:
  "fmul (Some a) (Some b) = Some (a * b)" "fmul None y = None" "fmul x None = None"
  by (simp_all add: fmul_def split: option.splits)

lemma fdiv_simps [simp]:
  "fdiv (Some a) (Some b) = (if b = 0 then None else Some (a / b))" "fdiv None y = None" "fdiv x None = None"
  by (simp_all add: fdiv_def split: option.splits)

lemma fsqrt_simps [simp]:
  "fsqrt (Some a) = (if a < 0 then None else Some (sqrt a))" "fsqrt None = None"
  by (simp_all add: fsqrt_def)

lemma fsum_simps [simp]: "fsum [] = Some 0" "fsum (x # xs) = fadd x (fsum xs)"
  by (simp_all add: fsum_def)

lemma fadd_assoc: "fadd (fadd a b) c = fadd a (fadd b c)"
  by (cases a; cases b; cases c) simp_all

lemma fadd_commute: "fadd a b = fadd b a"
  by (cases a; cases b) simp_all

lemma fsum_map_Some: "fsum (map (\<lambda>x. Some (f x)) xs) = Some (\<Sum>x\<leftarrow>xs. f x)"
  by (induction xs) simp_all

lemma fsum_None: "None \<in> set xs \<Longrightarrow> fsum xs = None"
  by (induction xs) auto

lemma fsum_finite: "None \<notin> set xs \<Longrightarrow> \<exists>t. fsum xs = Some t"
proof (induction xs)
  case Nil
  then show ?case by simp
next
  case (Cons a xs)
  then obtain t where "fsum xs = Some t" by auto
  moreover obtain x where "a = Some x" using Cons.prems by (cases a) auto
  ultimately show ?case by simp
qed

lemma fsum_append: "fsum (xs @ ys) = fadd (fsum xs) (fsum ys)"
  by (induction xs) (simp_all add: fadd_assoc, cases "fsum ys", simp_all)

lemma np_mean_None: "None \<in> set xs \<Longrightarrow> np_mean xs = None"
  by (simp add: np_mean_def fsum_None)

lemma np_mean_Nil: "np_mean [] = None"
  by (simp add: np_mean_def)

lemma np_mean_finite: "xs \<noteq> [] \<Longrightarrow> None \<notin> set xs \<Longrightarrow> \<exists>c. np_mean xs = Some c"
  using fsum_finite[of xs] by (auto simp: np_mean_def)

lemma np_mean_Some:
  "0 < U \<Longrightarrow> np_mean (map (\<lambda>l. Some (v l)) [0..<U]) = Some ((\<Sum>l\<leftarrow>[0..<U]. v l) / real U)"
  by (simp add: np_mean_def fsum_map_Some)

lemma np_var_Some:
  assumes "ddof < length a"
  shows "np_var ddof a = Some ((\<Sum>x\<leftarrow>a. (x - sum_list a / real (length a))\<^sup>2) / real (length a - ddof))"
proof -
  have n: "real (length a) \<noteq> 0" "real (length a - ddof) \<noteq> 0" using assms by auto
  have "map (\<lambda>d. fmul d d) (map (\<lambda>v. fsub (Some v) (Some (sum_list a / real (length a)))) a)
      = map (\<lambda>x. Some ((x - sum_list a / real (length a))\<^sup>2)) a"
    by (simp add: power2_eq_square)
  then show ?thesis
    using n by (simp add: np_var_def Let_def fsum_map_Some del: map_map)
qed

lemma np_var_None: "length a \<le> ddof \<Longrightarrow> np_var ddof a = None"
  by (cases "fsum (map (\<lambda>d. fmul d d) (map (\<lambda>v. fsub (Some v) (fdiv (Some (sum_list a)) (Some (real (length a))))) a))")
     (simp_all add: np_var_def Let_def)

subsection \<open>Consumption of the output\<close>

lemma block_step_int:
  "block_step (int I) l s =
     s\<lparr>output' := drop I (output' s),
       conditional_variance := (conditional_variance s)[l := np_var 1 (take I (output' s))]\<rparr>"
  by (simp add: block_step_def slice_to_int slice_from_int)

lemma fold_block_step:
  "l \<le> length (conditional_variance s) \<Longrightarrow>
   fold (block_step (int I)) [0..<l] s =
     s\<lparr>output' := drop (l * I) (output' s),
       conditional_variance := block_variances I l (output' s) @ drop l (conditional_variance s)\<rparr>"
proof (induction l)
  case 0
  then show ?case by (simp add: block_variances_def)
next
  case (Suc l)
  then have l: "l < length (conditional_variance s)" by simp
  have "(block_variances I l (output' s) @ drop l (conditional_variance s))
          [l := np_var 1 (take I (drop (l * I) (output' s)))]
        = block_variances I (Suc l) (output' s) @ drop (Suc l) (conditional_variance s)"
    using l by (simp add: block_variances_def list_update_append Cons_nth_drop_Suc[symmetric])
  with Suc show ?case
    by (simp add: block_step_int add.commute)
qed

lemma estimate_cost_inner:
  assumes "j + 1 \<noteq> N" "length (conditional_variance s) = U"
  shows "estimate_cost (int N) (int U) (int I) V j s =
     (np_mean (block_variances I U (output' s)),
      s\<lparr>output' := drop (U * I) (output' s),
        conditional_variance := block_variances I U (output' s)\<rparr>)"
proof -
  have "int j \<noteq> int N - 1" using assms(1) by linarith
  then show ?thesis
    using assms(2) by (simp add: estimate_cost_def py_range_int fold_block_step Let_def)
qed

lemma estimate_cost_last:
  "j + 1 = N \<Longrightarrow> estimate_cost (int N) n_outer n_inner V j s = (V, s)"
  by (auto simp: estimate_cost_def)

lemma estimate_cost_final:
  "1 \<le> N \<Longrightarrow> estimate_cost (int N) n_outer n_inner V (N - 1) s = (V, s)"
  by (rule estimate_cost_last) simp

lemma length_block_variances [simp]: "length (block_variances I U out) = U"
  by (simp add: block_variances_def)

text \<open>What a split leaves of the state, apart from the accumulators.\<close>

lemma split_step_fields:
  assumes "length (conditional_variance s) = U"
  shows "output' (split_step (int N) (int U) (int I) V perms j s)
           = (if j + 1 = N then output' s else drop (U * I) (output' s))"
    and "length (conditional_variance (split_step (int N) (int U) (int I) V perms j s)) = U"
    and "length (shapley_effects (split_step (int N) (int U) (int I) V perms j s)) = length (shapley_effects s)"
    and "length (shapley_effects_squared (split_step (int N) (int U) (int I) V perms j s)) = length (shapley_effects_squared s)"
proof -
  show "output' (split_step (int N) (int U) (int I) V perms j s)
           = (if j + 1 = N then output' s else drop (U * I) (output' s))"
  proof (cases "j + 1 = N")
    case True
    then show ?thesis by (simp add: split_step_def split_delta_def estimate_cost_last[OF True])
  next
    case False
    then show ?thesis
      by (simp add: split_step_def split_delta_def estimate_cost_inner[OF False assms])
  qed
  show "length (conditional_variance (split_step (int N) (int U) (int I) V perms j s)) = U"
  proof (cases "j + 1 = N")
    case True
    then show ?thesis using assms by (simp add: split_step_def split_delta_def estimate_cost_last[OF True])
  next
    case False
    then show ?thesis
      by (simp add: split_step_def split_delta_def estimate_cost_inner[OF False assms])
  qed
  show "length (shapley_effects (split_step (int N) (int U) (int I) V perms j s)) = length (shapley_effects s)"
  proof (cases "j + 1 = N")
    case True
    then show ?thesis by (simp add: split_step_def split_delta_def estimate_cost_last[OF True])
  next
    case False
    then show ?thesis
      by (simp add: split_step_def split_delta_def estimate_cost_inner[OF False assms])
  qed
  show "length (shapley_effects_squared (split_step (int N) (int U) (int I) V perms j s)) = length (shapley_effects_squared s)"
  proof (cases "j + 1 = N")
    case True
    then show ?thesis by (simp add: split_step_def split_delta_def estimate_cost_last[OF True])
  next
    case False
    then show ?thesis
      by (simp add: split_step_def split_delta_def estimate_cost_inner[OF False assms])
  qed
qed

lemma fold_split_step_fields:
  assumes "length (conditional_variance s) = U" "j \<le> N"
  shows "output' (fold (split_step (int N) (int U) (int I) V perms) [0..<j] s)
           = drop (min j (N - 1) * (U * I)) (output' s)
       \<and> length (conditional_variance (fold (split_step (int N) (int U) (int I) V perms) [0..<j] s)) = U
       \<and> length (shapley_effects (fold (split_step (int N) (int U) (int I) V perms) [0..<j] s)) = length (shapley_effects s)
       \<and> length (shapley_effects_squared (fold (split_step (int N) (int U) (int I) V perms) [0..<j] s)) = length (shapley_effects_squared s)"
  using assms(2)
proof (induction j)
  case 0
  then show ?case using assms(1) by simp
next
  case (Suc j)
  let ?t = "fold (split_step (int N) (int U) (int I) V perms) [0..<j] s"
  from Suc have IH: "output' ?t = drop (min j (N - 1) * (U * I)) (output' s)"
    "length (conditional_variance ?t) = U"
    "length (shapley_effects ?t) = length (shapley_effects s)"
    "length (shapley_effects_squared ?t) = length (shapley_effects_squared s)" by auto
  note f = split_step_fields[of ?t U N I V perms j, OF IH(2)]
  have "output' (split_step (int N) (int U) (int I) V perms j ?t)
          = drop (min (Suc j) (N - 1) * (U * I)) (output' s)"
  proof (cases "j + 1 = N")
    case True
    then have m: "N - Suc 0 = j" by simp
    show ?thesis using True by (simp add: f(1) IH(1) m)
  next
    case False
    with Suc.prems have "Suc j \<le> N - 1" by simp
    then show ?thesis using False by (simp add: f(1) IH(1) min_def add.commute)
  qed
  then show ?case using f(2-4) IH by simp
qed

lemma perm_step_fields:
  assumes "length (conditional_variance s) = U"
  shows "output' (perm_step permutations (int N) (int U) (int I) V p s)
           = drop ((N - 1) * (U * I)) (output' s)"
    and "length (conditional_variance (perm_step permutations (int N) (int U) (int I) V p s)) = U"
    and "length (shapley_effects (perm_step permutations (int N) (int U) (int I) V p s)) = length (shapley_effects s)"
    and "length (shapley_effects_squared (perm_step permutations (int N) (int U) (int I) V p s)) = length (shapley_effects_squared s)"
  using fold_split_step_fields[of "s\<lparr>previous_cost := Some 0\<rparr>" U N N I V "permutations ! p"] assms
  by (simp_all add: perm_step_def py_range_int)

lemma fold_perm_step_fields:
  assumes "length (conditional_variance s) = U"
  shows "output' (fold (perm_step permutations (int N) (int U) (int I) V) [0..<p] s)
           = drop (p * ((N - 1) * (U * I))) (output' s)
       \<and> length (conditional_variance (fold (perm_step permutations (int N) (int U) (int I) V) [0..<p] s)) = U
       \<and> length (shapley_effects (fold (perm_step permutations (int N) (int U) (int I) V) [0..<p] s)) = length (shapley_effects s)
       \<and> length (shapley_effects_squared (fold (perm_step permutations (int N) (int U) (int I) V) [0..<p] s)) = length (shapley_effects_squared s)"
proof (induction p)
  case 0
  then show ?case using assms by simp
next
  case (Suc p)
  let ?t = "fold (perm_step permutations (int N) (int U) (int I) V) [0..<p] s"
  from Suc have c: "length (conditional_variance ?t) = U" by simp
  from perm_step_fields[of ?t U permutations N I V p, OF c] Suc show ?case
    by (simp add: add.commute)
qed

lemma init_state_fields:
  "output' (init_state (int N) (int O') (int U) out) = drop O' out"
  "length (conditional_variance (init_state (int N) (int O') (int U) out)) = U"
  "shapley_effects (init_state (int N) (int O') (int U) out) = replicate N (Some 0)"
  "shapley_effects_squared (init_state (int N) (int O') (int U) out) = replicate N (Some 0)"
  by (simp_all add: init_state_def slice_from_int)

lemma output_state_at:
  assumes "j + 1 < N" "l \<le> U"
  shows "output' (state_at perms (int N) (int U) (int I) V p j l (init_state (int N) (int O') (int U) out))
           = drop (O' + ((p * (N - 1) + j) * U + l) * I) out"
proof -
  let ?s0 = "init_state (int N) (int O') (int U) out"
  let ?a = "fold (perm_step perms (int N) (int U) (int I) V) [0..<p] ?s0"
  let ?b = "fold (split_step (int N) (int U) (int I) V (perms ! p)) [0..<j] (?a\<lparr>previous_cost := Some 0\<rparr>)"
  note a = fold_perm_step_fields[of ?s0 U perms N I V p, OF init_state_fields(2)]
  have ca: "length (conditional_variance (?a\<lparr>previous_cost := Some 0\<rparr>)) = U" using a by simp
  have jN: "j \<le> N" using assms by simp
  note b = fold_split_step_fields[of "?a\<lparr>previous_cost := Some 0\<rparr>" U j N I V "perms ! p", OF ca jN]
  have lb: "l \<le> length (conditional_variance ?b)" using b assms by simp
  have m: "min j (N - Suc 0) = j" using assms by simp
  have "output' (state_at perms (int N) (int U) (int I) V p j l ?s0)
      = drop (l * I) (drop (j * (U * I)) (drop (p * ((N - 1) * (U * I))) (drop O' out)))"
    unfolding state_at_def fold_block_step[OF lb]
    using a b by (simp add: m init_state_fields)
  also have "\<dots> = drop (O' + ((p * (N - 1) + j) * U + l) * I) out"
    by (simp add: algebra_simps)
  finally show ?thesis .
qed

text \<open>
  C2. The estimator strips the output in the order the design was written. When it is
  about to strip block \<open>l\<close> of split \<open>j < n_inputs - 1\<close> of permutation \<open>p\<close>, what is left of the
  output starts at the offset \<open>inner_indices\<close> of the design block \<open>(p, j + 1, l)\<close>, so the
  \<open>n_inner\<close> values it strips are the outputs of the rows of that block. After the loop
  over the permutations \<open>n_perms * (n_inputs - 1) * n_outer * n_inner\<close> values have been
  stripped after the unconditional ones, and nothing is left when the output has one
  value for each row of the design.
\<close>

theorem output_consumed_in_design_order:
  "(p < P \<and> j + 1 < N \<and> l < U \<longrightarrow>
      output' (state_at perms (int N) (int U) (int I) V p j l (init_state (int N) (int O') (int U) out))
        = drop (nat (inner_indices (int O') (int N) (int U) (int I) p (j + 1) l)) out
      \<and> slice_to (output' (state_at perms (int N) (int U) (int I) V p j l
                             (init_state (int N) (int O') (int U) out))) (int I)
        = take I (drop (nat (inner_indices (int O') (int N) (int U) (int I) p (j + 1) l)) out))
   \<and> output' (estimate_loop perms (int P) (int N) (int O') (int U) (int I) out)
       = drop (O' + P * (N - 1) * U * I) out
   \<and> (1 \<le> N \<and> int (length out) = n_rows (int P) (int N) (int O') (int U) (int I) \<longrightarrow>
        output' (estimate_loop perms (int P) (int N) (int O') (int U) (int I) out) = [])"
proof (intro conjI impI)
  assume h: "p < P \<and> j + 1 < N \<and> l < U"
  then have j: "1 \<le> j + 1" "j + 1 < N" and l: "l \<le> U" by auto
  have off: "nat (inner_indices (int O') (int N) (int U) (int I) p (j + 1) l)
               = O' + ((p * (N - 1) + j) * U + l) * I"
    by (simp only: inner_indices_block_number[OF j] nat_int) (simp add: block_number_def)
  from output_state_at[OF j(2) l]
  show o: "output' (state_at perms (int N) (int U) (int I) V p j l (init_state (int N) (int O') (int U) out))
        = drop (nat (inner_indices (int O') (int N) (int U) (int I) p (j + 1) l)) out"
    by (simp only: off)
  show "slice_to (output' (state_at perms (int N) (int U) (int I) V p j l
                             (init_state (int N) (int O') (int U) out))) (int I)
        = take I (drop (nat (inner_indices (int O') (int N) (int U) (int I) p (j + 1) l)) out)"
    by (simp only: o slice_to_int)
next
  from fold_perm_step_fields[of "init_state (int N) (int O') (int U) out" U perms N I
      "output_variance_of (int O') out" P, OF init_state_fields(2)]
  show e: "output' (estimate_loop perms (int P) (int N) (int O') (int U) (int I) out)
       = drop (O' + P * (N - 1) * U * I) out"
    by (simp add: estimate_loop_def py_range_int init_state_fields algebra_simps)
  assume h: "1 \<le> N \<and> int (length out) = n_rows (int P) (int N) (int O') (int U) (int I)"
  then have N: "1 \<le> N" by simp
  from h have "int (length out) = int (O' + P * (N - 1) * U * I)"
    by (simp only: n_rows_nat[OF N])
  then have "length out = O' + P * (N - 1) * U * I"
    by (simp only: of_nat_eq_iff)
  then show "output' (estimate_loop perms (int P) (int N) (int O') (int U) (int I) out) = []"
    by (simp add: e)
qed

theorem output_consumed_in_design_order_witness:
  "((1 :: nat) < 2 \<and> (0 :: nat) + 1 < 2 \<and> (0 :: nat) < 1)
   \<and> output' (state_at [[0, 1], [1, 0]] (int 2) (int 1) (int 2) (Some 1) 1 0 0
                 (init_state (int 2) (int 2) (int 1) [0, 1, 2, 3, 4, 5]))
       = drop (nat (inner_indices (int 2) (int 2) (int 1) (int 2) 1 (0 + 1) 0)) [0, 1, 2, 3, 4, 5]
   \<and> slice_to (output' (state_at [[0, 1], [1, 0]] (int 2) (int 1) (int 2) (Some 1) 1 0 0
                 (init_state (int 2) (int 2) (int 1) [0, 1, 2, 3, 4, 5]))) (int 2)
       = [4, 5]
   \<and> ((1 :: nat) \<le> 2 \<and> int (length [0, 1, 2, 3, 4, 5 :: real]) = n_rows (int 2) (int 2) (int 2) (int 1) (int 2))
   \<and> output' (estimate_loop [[0, 1], [1, 0]] (int 2) (int 2) (int 2) (int 1) (int 2) [0, 1, 2, 3, 4, 5]) = []"
proof -
  note t = output_consumed_in_design_order[where p = 1 and P = 2 and j = 0 and N = 2 and l = 0
      and U = 1 and I = 2 and O' = 2 and perms = "[[0, 1], [1, 0]]" and V = "Some 1"
      and out = "[0, 1, 2, 3, 4, 5]"]
  have h1: "(1 :: nat) < 2 \<and> (0 :: nat) + 1 < 2 \<and> (0 :: nat) < 1" by simp
  have h2: "(1 :: nat) \<le> 2 \<and> int (length [0, 1, 2, 3, 4, 5 :: real]) = n_rows (int 2) (int 2) (int 2) (int 1) (int 2)"
    by (simp add: n_rows_def)
  from t h1 have c1: "output' (state_at [[0, 1], [1, 0]] (int 2) (int 1) (int 2) (Some 1) 1 0 0
                 (init_state (int 2) (int 2) (int 1) [0, 1, 2, 3, 4, 5]))
       = drop (nat (inner_indices (int 2) (int 2) (int 1) (int 2) 1 (0 + 1) 0)) [0, 1, 2, 3, 4, 5]"
    by blast
  from t h2 have c3: "output' (estimate_loop [[0, 1], [1, 0]] (int 2) (int 2) (int 2) (int 1) (int 2)
                        [0, 1, 2, 3, 4, 5]) = []"
    by blast
  have c2: "slice_to (output' (state_at [[0, 1], [1, 0]] (int 2) (int 1) (int 2) (Some 1) 1 0 0
                 (init_state (int 2) (int 2) (int 1) [0, 1, 2, 3, 4, 5]))) (int 2)
       = [4, 5]"
    by code_simp
  from h1 c1 c2 h2 c3 show ?thesis by blast
qed

text \<open>
  C5. \<open>output_variance\<close> is \<open>np.var\<close> with \<open>ddof = 0\<close> of the first \<open>n_output\<close> outputs: the sum
  of the squared deviations over \<open>n_output\<close>. At a split \<open>j < n_inputs - 1\<close> the cost is the
  mean of the \<open>n_outer\<close> variances with \<open>ddof = 1\<close> of the next blocks of \<open>n_inner\<close> outputs,
  each the sum of the squared deviations over the length of the block less one, and
  \<open>n_outer * n_inner\<close> outputs are consumed. At the last split the cost is
  \<open>output_variance\<close> and the state is unchanged.
\<close>

theorem cost_estimators:
  "output_variance_of (int O') out = np_var 0 (take O' out)
   \<and> (0 < O' \<and> O' \<le> length out \<longrightarrow>
        output_variance_of (int O') out
          = Some ((\<Sum>x\<leftarrow>take O' out. (x - sum_list (take O' out) / real O')\<^sup>2) / real O'))
   \<and> (j + 1 < N \<and> length (conditional_variance s) = U \<longrightarrow>
        fst (estimate_cost (int N) (int U) (int I) V j s)
          = np_mean (map (\<lambda>l. np_var 1 (take I (drop (l * I) (output' s)))) [0..<U])
        \<and> output' (snd (estimate_cost (int N) (int U) (int I) V j s)) = drop (U * I) (output' s))
   \<and> (2 \<le> length b \<longrightarrow>
        np_var 1 b = Some ((\<Sum>x\<leftarrow>b. (x - sum_list b / real (length b))\<^sup>2) / real (length b - 1)))
   \<and> (0 < U \<longrightarrow> np_mean (map (\<lambda>l. Some (v l)) [0..<U]) = Some ((\<Sum>l\<leftarrow>[0..<U]. v l) / real U))
   \<and> (1 \<le> N \<longrightarrow> estimate_cost (int N) (int U) (int I) V (N - 1) s = (V, s))"
proof (intro conjI impI)
  show "output_variance_of (int O') out = np_var 0 (take O' out)"
    by (simp add: output_variance_of_def slice_to_int)
  show "output_variance_of (int O') out
          = Some ((\<Sum>x\<leftarrow>take O' out. (x - sum_list (take O' out) / real O')\<^sup>2) / real O')"
    if "0 < O' \<and> O' \<le> length out"
  proof -
    have "length (take O' out) = O'" using that by simp
    with that np_var_Some[of 0 "take O' out"] show ?thesis
      by (simp add: output_variance_of_def slice_to_int)
  qed
  show "fst (estimate_cost (int N) (int U) (int I) V j s)
          = np_mean (map (\<lambda>l. np_var 1 (take I (drop (l * I) (output' s)))) [0..<U])"
    and "output' (snd (estimate_cost (int N) (int U) (int I) V j s)) = drop (U * I) (output' s)"
    if "j + 1 < N \<and> length (conditional_variance s) = U"
    using that estimate_cost_inner[of j N s U I V] by (simp_all add: block_variances_def)
  show "np_var 1 b = Some ((\<Sum>x\<leftarrow>b. (x - sum_list b / real (length b))\<^sup>2) / real (length b - 1))"
    if "2 \<le> length b"
    using that by (intro np_var_Some) simp
  show "np_mean (map (\<lambda>l. Some (v l)) [0..<U]) = Some ((\<Sum>l\<leftarrow>[0..<U]. v l) / real U)" if "0 < U"
    using that by (rule np_mean_Some)
  show "estimate_cost (int N) (int U) (int I) V (N - 1) s = (V, s)" if "1 \<le> N"
    using that by (rule estimate_cost_final)
qed

theorem cost_estimators_witness:
  "((0 :: nat) < 2 \<and> (2 :: nat) \<le> length [0, 1, 1, 3 :: real])
   \<and> output_variance_of (int 2) [0, 1, 1, 3] = Some (1 / 4)
   \<and> ((0 :: nat) + 1 < 2 \<and> length (conditional_variance (init_state (int 2) (int 2) (int 1) [0, 1, 1, 3])) = 1)
   \<and> fst (estimate_cost (int 2) (int 1) (int 2) (Some (1 / 4)) 0 (init_state (int 2) (int 2) (int 1) [0, 1, 1, 3]))
       = np_mean (map (\<lambda>l. np_var 1 (take 2 (drop (l * 2)
                    (output' (init_state (int 2) (int 2) (int 1) [0, 1, 1, 3]))))) [0..<1])
   \<and> fst (estimate_cost (int 2) (int 1) (int 2) (Some (1 / 4)) 0 (init_state (int 2) (int 2) (int 1) [0, 1, 1, 3]))
       = Some 2
   \<and> output' (snd (estimate_cost (int 2) (int 1) (int 2) (Some (1 / 4)) 0
                     (init_state (int 2) (int 2) (int 1) [0, 1, 1, 3]))) = []
   \<and> (2 :: nat) \<le> length [1, 3 :: real]
   \<and> np_var 1 [1, 3] = Some 2
   \<and> (0 :: nat) < 1
   \<and> (1 :: nat) \<le> 2
   \<and> fst (estimate_cost (int 2) (int 1) (int 2) (Some (1 / 4)) (2 - 1)
             (init_state (int 2) (int 2) (int 1) [0, 1, 1, 3])) = Some (1 / 4)"
proof -
  let ?s = "init_state (int 2) (int 2) (int 1) [0, 1, 1, 3]"
  note t = cost_estimators[where O' = 2 and out = "[0, 1, 1, 3]" and j = 0 and N = 2 and s = ?s
      and U = 1 and I = 2 and V = "Some (1 / 4)" and b = "[1, 3]" and v = "\<lambda>l. 2"]
  have h1: "(0 :: nat) < 2 \<and> (2 :: nat) \<le> length [0, 1, 1, 3 :: real]" by simp
  have h2: "(0 :: nat) + 1 < 2 \<and> length (conditional_variance ?s) = 1"
    using init_state_fields(2)[of 2 2 1 "[0, 1, 1, 3]"] by simp
  have h3: "(2 :: nat) \<le> length [1, 3 :: real]" "(0 :: nat) < 1" "(1 :: nat) \<le> 2" by simp_all
  from t h2 have c: "fst (estimate_cost (int 2) (int 1) (int 2) (Some (1 / 4)) 0 ?s)
       = np_mean (map (\<lambda>l. np_var 1 (take 2 (drop (l * 2) (output' ?s)))) [0..<1])"
    by blast
  have v: "output_variance_of (int 2) [0, 1, 1, 3] = Some (1 / 4)" by code_simp
  have e: "fst (estimate_cost (int 2) (int 1) (int 2) (Some (1 / 4)) 0 ?s) = Some 2" by code_simp
  have d: "output' (snd (estimate_cost (int 2) (int 1) (int 2) (Some (1 / 4)) 0 ?s)) = []" by code_simp
  have b: "np_var 1 [1, 3] = Some 2" by code_simp
  have f: "fst (estimate_cost (int 2) (int 1) (int 2) (Some (1 / 4)) (2 - 1) ?s) = Some (1 / 4)"
    by code_simp
  from h1 h2 h3 c v e d b f show ?thesis by blast
qed

subsection \<open>Normalisation, standard errors and the table\<close>





lemma length_normalized [simp]:
  "length (normalized_effects n V acc) = length acc"
  "length (normalized_squares n V acc) = length acc"
  "length (standard_errors_of n sq eff) = min (length sq) (length eff)"
  "length (CI_min_of eff se) = min (length eff) (length se)"
  "length (CI_max_of eff se) = min (length eff) (length se)"
  by (simp_all add: normalized_effects_def normalized_squares_def standard_errors_of_def
        CI_min_of_def CI_max_of_def)




subsection \<open>The result table\<close>





declare str_nat.simps [simp del]







end
